theory Spec2Isabelle
  imports Main "HOL-Library.Sublist"
begin

section \<open>Data model of the pipeline DSL (internal/workflow/dsl_workflow.go)\<close>

text \<open>
  Go strings are byte sequences; they are modelled as \<open>string\<close> (a list of \<open>char\<close>).
  The two quote characters that the grammar uses as delimiters are written by their codes.
\<close>

definition dquote :: char where
  "dquote = CHR 0x22"

definition squote :: char where
  "squote = CHR 0x27"

type_synonym QuotedString = string

text \<open>
  A Go \<open>error\<close> value. \<open>Wrap msg e\<close> is the result of
  \<^verbatim>\<open>fmt.Errorf("msg: %w", e)\<close>; \<open>Panic\<close> is a run-time panic of the Go program.
\<close>

datatype error = Error string | Wrap string error | Panic string

record Docker =
  Image :: QuotedString

record Agent =
  None_a :: bool
  Docker_a :: "Docker option"

record SingleKVCommand =
  Command :: string
  Value :: QuotedString

record Param =
  Key :: string
  Value_p :: QuotedString

record MultiKVCommand =
  Command_m :: string
  Params :: "Param list"

text \<open>The two pointer fields of \<open>Step\<close> may each be nil, hence \<open>option\<close>.\<close>

record Step =
  SingleKV :: "SingleKVCommand option"
  MultiKV :: "MultiKVCommand option"

text \<open>
  \<open>Stage\<close> is recursive through \<open>Parallel\<close> (a slice of stages), so it is a datatype
  with the fields of the struct as selectors. The parser fills the slices of pointers with
  stages and steps it has built, so their elements are values here.
\<close>

datatype Stage = Stage
  (Name: string)
  (Agent_s: "Agent option")
  (Steps: "Step list")
  (FailFast: "bool option")
  (Parallel: "Stage list")
  (Close: string)

record Pipeline =
  Agent_p :: "Agent option"
  Stages :: "Stage list"
  Close_p :: string

section \<open>Step translation\<close>

text \<open>
  \<open>Step.ToCommand\<close>: the second component is the Go map, \<open>None\<close> standing for the nil map.
  The loop over \<open>Params\<close> assigns \<open>params[p.Key] = string(p.Value)\<close> in order, so a later
  duplicate key overwrites an earlier one.
\<close>

fun ToCommand_params :: "(string \<rightharpoonup> string) \<Rightarrow> Param list \<Rightarrow> (string \<rightharpoonup> string)" where
  "ToCommand_params params [] = params"
| "ToCommand_params params (p # ps) = ToCommand_params (params(Key p \<mapsto> Value_p p)) ps"

definition ToCommand :: "Step \<Rightarrow> string \<times> (string \<rightharpoonup> string) option" where
  "ToCommand step =
     (if SingleKV step = None \<and> MultiKV step = None then ([], None)
      else case SingleKV step of
             Some s \<Rightarrow> (Command s @ '' '' @ [squote] @ Value s @ [squote], None)
           | None \<Rightarrow>
               (case MultiKV step of
                  Some m \<Rightarrow> (Command_m m, Some (ToCommand_params Map.empty (Params m)))
                | None \<Rightarrow> ([], None)))"

text \<open>\<open>Step.Name\<close>.\<close>

definition Name_step :: "Step \<Rightarrow> string" where
  "Name_step step =
     (case SingleKV step of
        Some s \<Rightarrow> Command s
      | None \<Rightarrow> (case MultiKV step of Some m \<Rightarrow> Command_m m | None \<Rightarrow> ''Unknown''))"

section \<open>Quote stripping\<close>

text \<open>
  \<open>strings.Trim s cutset\<close> of the Go standard library removes every leading and every
  trailing character of \<open>s\<close> that occurs in \<open>cutset\<close> (it is \<open>TrimLeft\<close> followed by
  \<open>TrimRight\<close>).
\<close>

definition TrimLeft :: "string \<Rightarrow> string \<Rightarrow> string" where
  "TrimLeft s cutset = dropWhile (\<lambda>c. c \<in> set cutset) s"

definition TrimRight :: "string \<Rightarrow> string \<Rightarrow> string" where
  "TrimRight s cutset = rev (dropWhile (\<lambda>c. c \<in> set cutset) (rev s))"

definition Trim :: "string \<Rightarrow> string \<Rightarrow> string" where
  "Trim s cutset = TrimRight (TrimLeft s cutset) cutset"

text \<open>
  \<open>QuotedString.Capture\<close>: the receiver is overwritten with the trimmed first value and nil
  is returned; \<open>values[0]\<close> on an empty slice panics.
\<close>

definition Capture :: "string list \<Rightarrow> error + QuotedString" where
  "Capture values =
     (case values of
        [] \<Rightarrow> Inl (Panic ''index out of range'')
      | v # _ \<Rightarrow> Inr (Trim v [dquote, squote]))"

section \<open>Image names\<close>

text \<open>
  \<open>strings.Split s sep\<close> for a one-character separator: the pieces of \<open>s\<close> between
  the occurrences of the separator; a string without the separator gives the one-element
  list holding the string itself.
\<close>

fun Split :: "string \<Rightarrow> char \<Rightarrow> string list" where
  "Split [] sep = [[]]"
| "Split (c # cs) sep =
     (if c = sep then [] # Split cs sep
      else (case Split cs sep of
              [] \<Rightarrow> [[c]]
            | w # ws \<Rightarrow> (c # w) # ws))"

text \<open>\<open>buildImageWithTag\<close>. \<open>Split\<close> never returns the empty list, so index 0 always exists.\<close>

definition buildImageWithTag :: "string \<Rightarrow> string" where
  "buildImageWithTag imageName =
     (let imageTag = Split imageName (CHR '':'') in
      if length imageTag > 1 then imageTag ! 0 @ '':'' @ imageTag ! 1
      else imageTag ! 0 @ '':latest'')"

section \<open>Execution engine\<close>

text \<open>
  The engine runs on the Temporal workflow runtime, which is not part of the repository.
  The runtime is a parameter of the model:
  \<^item> a stage is identified by its position in the stage tree (\<open>path\<close>: the index of the
    top-level stage, then the index of the branch in each enclosing parallel group), which
    stands for the identity of the \<open>*Stage\<close> pointer;
  \<^item> \<open>activity env path steps agent\<close> is what
    \<^verbatim>\<open>workflow.ExecuteActivity(ctx, "StageActivity", stage.Steps, stage.Agent).Get\<close>
    returns for the stage at \<open>path\<close>, after the runtime has applied the timeout and the
    retry policy of the activity options: an error, or the output strings;
  \<^item> \<open>pick env path i\<close> decides which of the still pending branch futures of the parallel
    group at \<open>path\<close> the \<open>i\<close>-th call of \<open>selector.Select\<close> delivers (taken modulo the
    number of pending futures, so every function is a schedule and every completion order
    is the schedule of some function).
  A cancellation scope is named by the chain of \<open>workflow.WithCancel\<close> calls that derived it.
\<close>

type_synonym path = "nat list"

datatype Context = RootCtx | WithCancel Context path

text \<open>A value of the results map: the output strings of a stage, or a nested results map.\<close>

datatype Value = Strings "string list" | Nested "string \<Rightarrow> Value option"

text \<open>
  What the engine asks of the runtime, in the order in which it is known to have happened
  before the engine returns:
  \<^item> \<open>GoEv ctx path\<close>: \<open>executeAsync\<close> started the coroutine of the branch at \<open>path\<close> under \<open>ctx\<close>;
  \<^item> \<open>ActivityEv ctx path\<close>: \<open>executeSteps\<close> of the stage at \<open>path\<close> ran its activity under \<open>ctx\<close>;
  \<^item> \<open>SelectEv path k\<close>: a \<open>selector.Select\<close> of the group at \<open>path\<close> returned, having
    delivered the completed future of branch \<open>k\<close>;
  \<^item> \<open>CancelEv path\<close>: the \<open>cancelHandler\<close> of the group at \<open>path\<close> was called.
  The events of a branch are recorded when its future is delivered; a branch whose future
  is never delivered has been started (its \<open>GoEv\<close>) and nothing more is known of it.
\<close>

datatype event =
    GoEv Context path
  | ActivityEv Context path
  | SelectEv path nat
  | CancelEv path

record Env =
  activity :: "path \<Rightarrow> Step list \<Rightarrow> Agent option \<Rightarrow> error + string list"
  pick :: "path \<Rightarrow> nat \<Rightarrow> nat"

text \<open>
  The two Go maps an \<open>execute\<close> call receives. Go maps are references, so what a callee
  writes stays written when it returns an error: every function returns the frame.
\<close>

record Frame =
  variables :: "string \<rightharpoonup> string"
  results :: "string \<rightharpoonup> Value"

type_synonym Outcome = "error option \<times> Frame \<times> event list"

text \<open>A branch future: the index of the branch and the coroutine that completes it.\<close>

type_synonym Future = "nat \<times> (Frame \<Rightarrow> Outcome)"

text \<open>\<open>Stage.executeSteps\<close>.\<close>

definition executeSteps :: "Env \<Rightarrow> Context \<Rightarrow> path \<Rightarrow> Stage \<Rightarrow> Frame \<Rightarrow> Outcome" where
  "executeSteps env ctx path stage fr =
     (if length (Steps stage) = 0 then (None, fr, [])
      else case activity env path (Steps stage) (Agent_s stage) of
             Inl err \<Rightarrow> (Some err, fr, [ActivityEv ctx path])
           | Inr result \<Rightarrow>
               (None, fr\<lparr>results := (results fr)(Name stage \<mapsto> Strings result)\<rparr>,
                [ActivityEv ctx path]))"

text \<open>
  \<open>executeAsync\<close>: the future of a coroutine that runs \<open>exe.execute\<close> under \<open>ctx\<close> on the
  shared maps.
\<close>

definition executeAsync :: "(Context \<Rightarrow> Frame \<Rightarrow> Outcome) \<Rightarrow> Context \<Rightarrow> (Frame \<Rightarrow> Outcome)" where
  "executeAsync exe ctx = (\<lambda>fr. exe ctx fr)"

text \<open>
  The second loop of \<open>Parallel.execute\<close>. It runs once per branch, and each run removes the
  delivered future from the pending ones, so the loop is a recursion on the pending futures;
  \<open>i\<close> is the loop counter. The callback of the delivered future runs inside \<open>Select\<close>: on an
  error it calls \<open>cancelHandler\<close> and sets \<open>activityErr\<close>, and the loop returns at once.
\<close>

function Select_loop :: "Env \<Rightarrow> path \<Rightarrow> nat \<Rightarrow> Future list \<Rightarrow> Frame \<Rightarrow> Outcome" where
  "Select_loop env path i [] fr = (None, fr, [])"
| "Select_loop env path i (f # fs) fr =
     (let k = pick env path i mod length (f # fs) in
      case snd ((f # fs) ! k) fr of
        (Some err, fr', evs) \<Rightarrow>
          (Some err, fr', evs @ [SelectEv path (fst ((f # fs) ! k)), CancelEv path])
      | (None, fr', evs) \<Rightarrow>
          (case Select_loop env path (Suc i) (take k (f # fs) @ drop (Suc k) (f # fs)) fr' of
             (r, fr'', evs') \<Rightarrow> (r, fr'', evs @ [SelectEv path (fst ((f # fs) ! k))] @ evs')))"
  by pat_completeness auto
termination
  by (relation "measure (\<lambda>(env, path, i, fs, fr). length fs)") auto

text \<open>
  \<open>Stage.execute\<close> and \<open>Parallel.execute\<close>. The first loop of \<open>Parallel.execute\<close> starts one
  coroutine per branch under the derived scope and registers its future.
\<close>

function Stage_execute :: "Env \<Rightarrow> Context \<Rightarrow> path \<Rightarrow> Stage \<Rightarrow> Frame \<Rightarrow> Outcome"
and Parallel_execute :: "Env \<Rightarrow> Context \<Rightarrow> path \<Rightarrow> Stage list \<Rightarrow> Frame \<Rightarrow> Outcome" where
  "Stage_execute env ctx path (Stage name agent steps ff par cl) fr =
     (if length par > 0 then
        (case Parallel_execute env ctx path par (fr\<lparr>results := Map.empty\<rparr>) of
           (Some err, pfr, evs) \<Rightarrow> (Some err, fr\<lparr>variables := variables pfr\<rparr>, evs)
         | (None, pfr, evs) \<Rightarrow>
             (case executeSteps env ctx path (Stage name agent steps ff par cl)
                     (fr\<lparr>variables := variables pfr,
                         results := (results fr)(name \<mapsto> Nested (results pfr))\<rparr>) of
                (err, fr', evs') \<Rightarrow> (err, fr', evs @ evs')))
      else executeSteps env ctx path (Stage name agent steps ff par cl) fr)"
| "Parallel_execute env ctx path p fr =
     (let childCtx = WithCancel ctx path in
      case Select_loop env path 0
             (map (\<lambda>(i, s). (i, executeAsync (\<lambda>c fr'. Stage_execute env c (path @ [i]) s fr') childCtx))
                  (enumerate 0 p))
             fr of
        (err, fr', evs) \<Rightarrow>
          (err, fr', map (\<lambda>(i, s). GoEv childCtx (path @ [i])) (enumerate 0 p) @ evs))"
  by pat_completeness auto
termination
proof -
  have nth_smaller: "a < length p \<Longrightarrow> size (p ! a) < size_list size p"
    for a and p :: "Stage list"
    by (induction p arbitrary: a)
       (auto simp: nth_Cons split: nat.splits intro: less_SucI trans_less_add2)
  show ?thesis
    by (relation "measure (case_sum (\<lambda>(env, ctx, path, s, fr). size s)
                                   (\<lambda>(env, ctx, path, p, fr). size_list size p))")
       (auto simp: in_set_enumerate_eq nth_smaller)
qed

text \<open>
  The loop of \<open>GroovyDSLWorkflow\<close> over the top-level stages; \<open>i\<close> is the index of the
  first stage of the list.
\<close>

fun GroovyDSLWorkflow_loop :: "Env \<Rightarrow> Context \<Rightarrow> nat \<Rightarrow> Stage list \<Rightarrow> Frame \<Rightarrow> Outcome" where
  "GroovyDSLWorkflow_loop env ctx i [] fr = (None, fr, [])"
| "GroovyDSLWorkflow_loop env ctx i (stage # rest) fr =
     (case Stage_execute env ctx [i] stage fr of
        (Some err, fr', evs) \<Rightarrow> (Some err, fr', evs)
      | (None, fr', evs) \<Rightarrow>
          (case GroovyDSLWorkflow_loop env ctx (Suc i) rest fr' of
             (r, fr'', evs') \<Rightarrow> (r, fr'', evs @ evs')))"

text \<open>
  \<open>GroovyDSLWorkflow\<close> returns the results map (\<open>None\<close> is the nil map) and the error; the
  events are kept beside them.
\<close>

definition GroovyDSLWorkflow ::
  "Env \<Rightarrow> Context \<Rightarrow> Pipeline \<Rightarrow> ((string \<rightharpoonup> Value) option \<times> error option) \<times> event list" where
  "GroovyDSLWorkflow env ctx pipeline =
     (case GroovyDSLWorkflow_loop env ctx 0 (Stages pipeline)
             \<lparr>variables = Map.empty, results = Map.empty\<rparr> of
        (Some err, fr, evs) \<Rightarrow> ((None, Some err), evs)
      | (None, fr, evs) \<Rightarrow> ((Some (results fr), None), evs))"

section \<open>Reading the events of an execution\<close>

fun event_path :: "event \<Rightarrow> path" where
  "event_path (GoEv ctx p) = p"
| "event_path (ActivityEv ctx p) = p"
| "event_path (SelectEv p k) = p"
| "event_path (CancelEv p) = p"

text \<open>The stage at \<open>p\<close>, or a stage inside it, has been started.\<close>

definition executed :: "event list \<Rightarrow> path \<Rightarrow> bool" where
  "executed evs p = (\<exists>ev \<in> set evs. prefix p (event_path ev))"

text \<open>The number of \<open>selector.Select\<close> calls of the group at \<open>p\<close> that have returned.\<close>

definition selects :: "path \<Rightarrow> event list \<Rightarrow> nat" where
  "selects p evs = length (filter (\<lambda>ev. case ev of SelectEv q k \<Rightarrow> q = p | _ \<Rightarrow> False) evs)"

text \<open>
  A scope is cancelled once its own cancel handler, or that of a scope it derives from, has
  been called.
\<close>

fun cancelled :: "event list \<Rightarrow> Context \<Rightarrow> bool" where
  "cancelled evs RootCtx = False"
| "cancelled evs (WithCancel ctx p) = (CancelEv p \<in> set evs \<or> cancelled evs ctx)"

abbreviation err_of :: "Outcome \<Rightarrow> error option" where
  "err_of r \<equiv> fst r"

abbreviation frame_of :: "Outcome \<Rightarrow> Frame" where
  "frame_of r \<equiv> fst (snd r)"

abbreviation events_of :: "Outcome \<Rightarrow> event list" where
  "events_of r \<equiv> snd (snd r)"

text \<open>The futures and the start events that the first loop of \<open>Parallel.execute\<close> produces.\<close>

abbreviation branch_futures :: "Env \<Rightarrow> Context \<Rightarrow> path \<Rightarrow> Stage list \<Rightarrow> Future list" where
  "branch_futures env cc path p \<equiv>
     map (\<lambda>(i, s). (i, executeAsync (\<lambda>c fr'. Stage_execute env c (path @ [i]) s fr') cc))
         (enumerate 0 p)"

abbreviation go_events :: "Context \<Rightarrow> path \<Rightarrow> Stage list \<Rightarrow> event list" where
  "go_events cc path p \<equiv> map (\<lambda>(i, s). GoEv cc (path @ [i])) (enumerate 0 p)"

text \<open>
  An event of the parallel group at \<open>path\<close>: one of its own \<open>Select\<close> or cancel events, or an
  event of a stage inside the group.
\<close>

definition group_event :: "path \<Rightarrow> event \<Rightarrow> bool" where
  "group_event path ev =
     ((\<exists>k. ev = SelectEv path k) \<or> ev = CancelEv path \<or> strict_prefix path (event_path ev))"

text \<open>
  A function on frames is oblivious when its error and its events do not depend on the
  frame, it leaves the variables as they are, and the results it returns depend on the
  results it was given only.
\<close>

definition oblivious :: "(Frame \<Rightarrow> Outcome) \<Rightarrow> bool" where
  "oblivious X = (\<forall>fr1 fr2.
      err_of (X fr1) = err_of (X fr2) \<and> events_of (X fr1) = events_of (X fr2) \<and>
      variables (frame_of (X fr1)) = variables fr1 \<and>
      (results fr1 = results fr2 \<longrightarrow> results (frame_of (X fr1)) = results (frame_of (X fr2))))"

section \<open>Execution backend (internal/workflow/activities.go)\<close>

text \<open>
  The host shell and the Docker daemon are parameters. \<open>Output host i command\<close> is what
  \<^verbatim>\<open>exec.Command("bash", "-c", command).Output()\<close> returns for the \<open>i\<close>-th command of the list;
  the fields of \<open>Docker_client\<close> are the calls of the Docker SDK that \<open>DockerActivity\<close>
  makes, each returning its error or its result (\<open>ContainerExecCreate\<close> also takes the
  position of the command, since the daemon answers every call with a fresh exec id).
  Logging is left out. A nil slice and an empty slice are both the empty list.
\<close>

record Docker_client =
  NewClientWithOpts :: "error option"
  ImagePull :: "string \<Rightarrow> error option"
  ContainerCreate :: "string \<Rightarrow> error + string"
  ContainerStart :: "string \<Rightarrow> error option"
  ContainerExecCreate :: "string \<Rightarrow> nat \<Rightarrow> string list \<Rightarrow> error + string"
  ContainerExecAttach :: "string \<Rightarrow> error + string"
  ReadAll :: "string \<Rightarrow> error + string"
  ContainerStop :: "string \<Rightarrow> error option"
  ContainerRemove :: "string \<Rightarrow> error option"

record Host =
  Output :: "nat \<Rightarrow> string \<Rightarrow> error + string"
  cli :: Docker_client

text \<open>
  The loop of \<open>DockerActivity\<close> over the commands; its early returns give the nil slice.
  An error of \<open>ContainerRemove\<close> is logged and does not change what is returned.
\<close>

fun DockerActivity_loop ::
  "Docker_client \<Rightarrow> string \<Rightarrow> nat \<Rightarrow> string list \<Rightarrow> string list \<Rightarrow> error + string list" where
  "DockerActivity_loop c containerID i [] res = Inr res"
| "DockerActivity_loop c containerID i (cmd # cmds) res =
     (case ContainerExecCreate c containerID i [''sh'', ''-c'', cmd] of
        Inl err \<Rightarrow>
          Inl (Wrap (''failed to create exec instance for command '' @ [squote] @ cmd @ [squote]) err)
      | Inr execID \<Rightarrow>
          (case ContainerExecAttach c execID of
             Inl err \<Rightarrow>
               Inl (Wrap (''failed to start exec instance for command '' @ [squote] @ cmd @ [squote]) err)
           | Inr reader \<Rightarrow>
               (case ReadAll c reader of
                  Inl err \<Rightarrow>
                    Inl (Wrap (''failed to read output for command '' @ [squote] @ cmd @ [squote]) err)
                | Inr output \<Rightarrow>
                    DockerActivity_loop c containerID (Suc i) cmds (res @ [output]))))"

definition DockerActivity :: "Docker_client \<Rightarrow> string \<Rightarrow> string list \<Rightarrow> string list \<times> error option" where
  "DockerActivity c imageName commands =
     (case NewClientWithOpts c of
        Some err \<Rightarrow> ([], Some (Wrap ''failed to create Docker client'' err))
      | None \<Rightarrow>
     (case ImagePull c imageName of
        Some err \<Rightarrow> ([], Some (Wrap ''failed to pull Docker image'' err))
      | None \<Rightarrow>
     (case ContainerCreate c imageName of
        Inl err \<Rightarrow> ([], Some (Wrap ''failed to create Docker container'' err))
      | Inr containerID \<Rightarrow>
     (case ContainerStart c containerID of
        Some err \<Rightarrow> ([], Some (Wrap ''failed to start Docker container'' err))
      | None \<Rightarrow>
     (case DockerActivity_loop c containerID 0 commands [] of
        Inl err \<Rightarrow> ([], Some err)
      | Inr res \<Rightarrow>
     (case ContainerStop c containerID of
        Some err \<Rightarrow> ([], Some (Wrap ''failed to stop container'' err))
      | None \<Rightarrow>
     (case ContainerRemove c containerID of
        Some err \<Rightarrow> (res, None)
      | None \<Rightarrow> (res, None))))))))"

text \<open>
  The loop of \<open>SampleActivity\<close> over the commands when no container image is given: the
  output of a command is printed and the slice \<open>res\<close> (\<open>results\<close> in the source) is
  returned as it was declared.
\<close>

fun SampleActivity_loop ::
  "(nat \<Rightarrow> string \<Rightarrow> error + string) \<Rightarrow> nat \<Rightarrow> string list \<Rightarrow> string list \<Rightarrow> string list \<times> error option" where
  "SampleActivity_loop out i [] res = (res, None)"
| "SampleActivity_loop out i (command # commands) res =
     (case out i command of
        Inl err \<Rightarrow> (res, Some err)
      | Inr output \<Rightarrow> SampleActivity_loop out (Suc i) commands res)"

definition SampleActivity :: "Host \<Rightarrow> string list \<Rightarrow> string \<Rightarrow> string list \<times> error option" where
  "SampleActivity host commands containerImage =
     (if containerImage \<noteq> [] then DockerActivity (cli host) containerImage commands
      else SampleActivity_loop (Output host) 0 commands [])"

section \<open>Reference inputs\<close>

text \<open>The two steps of the step-translation example.\<close>

definition echo_step :: Step where
  "echo_step = \<lparr>SingleKV = Some \<lparr>Command = ''echo'', Value = ''hello''\<rparr>, MultiKV = None\<rparr>"

definition git_step :: Step where
  "git_step =
     \<lparr>SingleKV = None,
      MultiKV = Some \<lparr>Command_m = ''git'',
                      Params = [\<lparr>Key = ''branch'', Value_p = ''master''\<rparr>,
                                \<lparr>Key = ''credentialsId'', Value_p = ''123''\<rparr>,
                                \<lparr>Key = ''url'', Value_p = ''ssh://x''\<rparr>]\<rparr>\<rparr>"

text \<open>
  A stage with one \<open>echo\<close> step, a parallel group of two such stages, a stage that has both
  the group and a step of its own, and a pipeline of three sequential stages.
\<close>

definition leaf :: "string \<Rightarrow> Stage" where
  "leaf name = Stage name None [echo_step] None [] ''}''"

definition two_branches :: "Stage list" where
  "two_branches = [leaf ''Branch A'', leaf ''Branch B'']"

definition parallel_stage :: Stage where
  "parallel_stage = Stage ''Parallel Stage'' None [echo_step] (Some True) two_branches ''}''"

definition three_stages :: Pipeline where
  "three_stages =
     \<lparr>Agent_p = Some \<lparr>None_a = True, Docker_a = None\<rparr>,
      Stages = [leaf ''S1'', leaf ''S2'', leaf ''S3''],
      Close_p = ''}''\<rparr>"

definition empty_frame :: Frame where
  "empty_frame = \<lparr>variables = Map.empty, results = Map.empty\<rparr>"

text \<open>
  Two runtimes. In both, \<open>Select\<close> always delivers the first pending future. In \<open>env_ok\<close>
  every activity succeeds; in \<open>env_failing q\<close> the activity of the stage at \<open>q\<close> fails.
\<close>

definition env_ok :: Env where
  "env_ok = \<lparr>activity = (\<lambda>p steps agent. Inr [''done'']), pick = (\<lambda>p i. 0)\<rparr>"

definition env_failing :: "path \<Rightarrow> Env" where
  "env_failing q =
     \<lparr>activity = (\<lambda>p steps agent. if p = q then Inl (Error ''exit status 1'') else Inr [''done'']),
      pick = (\<lambda>p i. 0)\<rparr>"

text \<open>A host on which every command prints \<open>hi\<close> and every call of the Docker SDK succeeds.\<close>

definition host_ok :: Host where
  "host_ok =
     \<lparr>Output = (\<lambda>i command. Inr ''hi''),
      cli = \<lparr>NewClientWithOpts = None,
             ImagePull = (\<lambda>image. None),
             ContainerCreate = (\<lambda>image. Inr ''c1''),
             ContainerStart = (\<lambda>c. None),
             ContainerExecCreate = (\<lambda>c i cmd. Inr ''e1''),
             ContainerExecAttach = (\<lambda>e. Inr ''r1''),
             ReadAll = (\<lambda>r. Inr ''hi''),
             ContainerStop = (\<lambda>c. None),
             ContainerRemove = (\<lambda>c. None)\<rparr>\<rparr>"

section \<open>Step translation\<close>

text \<open>
  C5. The single-argument step \<open>echo "hello"\<close> translates to the command text
  \<open>echo 'hello'\<close> with the nil parameter map, and the multi-argument \<open>git\<close> step
  translates to the command name \<open>git\<close> with the map of its three parameters.
\<close>

theorem C5_step_translation:
  "ToCommand echo_step = (''echo '' @ [squote] @ ''hello'' @ [squote], None) \<and>
   ToCommand git_step =
     (''git'', Some [''branch'' \<mapsto> ''master'', ''credentialsId'' \<mapsto> ''123'', ''url'' \<mapsto> ''ssh://x''])"
  by (simp add: ToCommand_def echo_step_def git_step_def)

section \<open>Quote stripping\<close>

lemma Trim_strips:
  assumes "set ql \<subseteq> set cs" "set qr \<subseteq> set cs"
    and "b = [] \<or> (hd b \<notin> set cs \<and> last b \<notin> set cs)"
  shows "Trim (ql @ b @ qr) cs = b"
proof (cases "b = []")
  case True
  have "dropWhile (\<lambda>c. c \<in> set cs) (ql @ qr) = []"
    using assms(1,2) by (auto simp: dropWhile_eq_Nil_conv)
  then have "Trim (ql @ qr) cs = []"
    unfolding Trim_def TrimLeft_def TrimRight_def by (simp only: rev.simps dropWhile.simps)
  then show ?thesis using True by simp
next
  case False
  with assms(3) have h: "hd b \<notin> set cs" and l: "last b \<notin> set cs" by auto
  have 1: "dropWhile (\<lambda>c. c \<in> set cs) (ql @ b @ qr) = b @ qr"
  proof -
    have "dropWhile (\<lambda>c. c \<in> set cs) (ql @ b @ qr) = dropWhile (\<lambda>c. c \<in> set cs) (b @ qr)"
      using assms(1) by (intro dropWhile_append2) auto
    also have "\<dots> = b @ qr" using False h by (cases b) auto
    finally show ?thesis .
  qed
  have 2: "dropWhile (\<lambda>c. c \<in> set cs) (rev (b @ qr)) = rev b"
  proof -
    have "dropWhile (\<lambda>c. c \<in> set cs) (rev qr @ rev b) = dropWhile (\<lambda>c. c \<in> set cs) (rev b)"
      using assms(2) by (intro dropWhile_append2) auto
    also have "\<dots> = rev b" using False l by (cases "rev b") (auto simp: last_rev hd_rev)
    finally show ?thesis by simp
  qed
  show ?thesis by (simp add: Trim_def TrimLeft_def TrimRight_def 1 2 del: rev_append)
qed

text \<open>
  C6, as amended. \<open>Capture\<close> removes every leading and every trailing quote character of
  either kind, however many there are, and nothing else: a token made of quote characters
  \<open>ql\<close>, a body \<open>b\<close> that neither starts nor ends with a quote character, and quote
  characters \<open>qr\<close> is captured as \<open>b\<close>. So \<open>"abc"\<close> and \<open>'abc'\<close> are both captured as
  \<open>abc\<close>, quote characters inside the body stay, and an inner quote layer at the ends of
  the token is removed together with the outer one.
\<close>

theorem C6_capture_strips_every_quote_layer:
  assumes "set ql \<subseteq> {dquote, squote}" and "set qr \<subseteq> {dquote, squote}"
    and "b = [] \<or> (hd b \<notin> {dquote, squote} \<and> last b \<notin> {dquote, squote})"
  shows "Capture ((ql @ b @ qr) # rest) = Inr b"
  using Trim_strips[of ql "[dquote, squote]" qr b] assms by (simp add: Capture_def)

theorem C6_witness:
  "Capture [[dquote] @ ''abc'' @ [dquote]] = Inr ''abc'' \<and>
   Capture [[squote] @ ''abc'' @ [squote]] = Inr ''abc'' \<and>
   Capture [[dquote, squote] @ (''a'' @ [squote] @ ''bc'') @ [squote, dquote]]
     = Inr (''a'' @ [squote] @ ''bc'')"
  using C6_capture_strips_every_quote_layer[of "[dquote]" "[dquote]" "''abc''" "[]"]
        C6_capture_strips_every_quote_layer[of "[squote]" "[squote]" "''abc''" "[]"]
        C6_capture_strips_every_quote_layer
          [of "[dquote, squote]" "[squote, dquote]" "''a'' @ [squote] @ ''bc''" "[]"]
  by (simp add: dquote_def squote_def)

text \<open>
  The claim as stated fails on the token \<open>"'abc'"\<close>: the inner layer is not preserved, the
  capture is \<open>abc\<close> and not \<open>'abc'\<close>.
\<close>

theorem C6_counterexample:
  "Capture [[dquote] @ ([squote] @ ''abc'' @ [squote]) @ [dquote]] = Inr ''abc'' \<and>
   Capture [[dquote] @ ([squote] @ ''abc'' @ [squote]) @ [dquote]]
     \<noteq> Inr ([squote] @ ''abc'' @ [squote])"
  by (simp add: Capture_def Trim_def TrimLeft_def TrimRight_def dquote_def squote_def)

section \<open>Image names\<close>

lemma Split_no_sep: "sep \<notin> set s \<Longrightarrow> Split s sep = [s]"
  by (induction s) auto

lemma Split_length: "length (Split s sep) = Suc (length (filter (\<lambda>c. c = sep) s))"
  by (induction s) (auto split: list.splits)

lemma Split_one_sep: "sep \<notin> set a \<Longrightarrow> sep \<notin> set b \<Longrightarrow> Split (a @ sep # b) sep = [a, b]"
  by (induction a) (auto simp: Split_no_sep)

text \<open>What \<open>buildImageWithTag\<close> does on names with no colon and with one colon.\<close>

lemma buildImageWithTag_untagged:
  "CHR '':'' \<notin> set imageName \<Longrightarrow> buildImageWithTag imageName = imageName @ '':latest''"
  by (simp add: buildImageWithTag_def Split_no_sep)

lemma buildImageWithTag_one_colon:
  "CHR '':'' \<notin> set name \<Longrightarrow> CHR '':'' \<notin> set tag \<Longrightarrow>
   buildImageWithTag (name @ '':'' @ tag) = name @ '':'' @ tag"
  by (simp add: buildImageWithTag_def Split_one_sep)

text \<open>
  C9. The claim says that an image name that already includes a tag keeps it. On a name with
  more than one colon, such as one with a registry port, the code keeps the first two pieces
  only: the tag of \<open>localhost:5000/maven:3.9\<close> is dropped.
\<close>

theorem C9_registry_port_drops_tag:
  "buildImageWithTag ''localhost:5000/maven:3.9'' = ''localhost:5000/maven'' \<and>
   buildImageWithTag ''localhost:5000/maven:3.9'' \<noteq> ''localhost:5000/maven:3.9''"
  by (simp add: buildImageWithTag_def)

section \<open>Execution backend\<close>

lemma SampleActivity_loop_results: "fst (SampleActivity_loop out i commands res) = res"
  by (induction out i commands res rule: SampleActivity_loop.induct) (auto split: sum.splits)

lemma SampleActivity_direct_no_output: "fst (SampleActivity host commands []) = []"
  by (simp add: SampleActivity_def SampleActivity_loop_results)

lemma DockerActivity_loop_length:
  "DockerActivity_loop c containerID i cmds res = Inr r \<Longrightarrow> length r = length res + length cmds"
  by (induction c containerID i cmds res rule: DockerActivity_loop.induct)
     (auto split: sum.splits)

lemma DockerActivity_one_output_per_command:
  "DockerActivity c imageName commands = (res, None) \<Longrightarrow> length res = length commands"
  by (auto simp: DockerActivity_def split: option.splits sum.splits dest: DockerActivity_loop_length)

text \<open>
  C7. The claim says that both modes return one output string per command. With no
  container image, \<open>SampleActivity\<close> returns no output string for a command that succeeds,
  where the containerized mode returns one.
\<close>

theorem C7_direct_mode_returns_no_output:
  "SampleActivity host_ok [''echo hi''] [] = ([], None) \<and>
   SampleActivity host_ok [''echo hi''] ''alpine'' = ([''hi''], None)"
  by (simp add: SampleActivity_def DockerActivity_def host_ok_def)

section \<open>The execution engine: auxiliary facts\<close>

declare Stage_execute.simps [simp del] Parallel_execute.simps [simp del]

lemma futures_set:
  "set (map (\<lambda>(i, s). (i, executeAsync (\<lambda>c fr'. Stage_execute env c (path @ [i]) s fr') cc))
            (enumerate 0 p)) =
   {(i, Stage_execute env cc (path @ [i]) (p ! i)) | i. i < length p}"
  by (auto simp: executeAsync_def in_set_enumerate_eq image_iff)

lemma remaining_subset: "set (take k xs @ drop (Suc k) xs) \<subseteq> set xs"
  using set_take_subset[of k xs] set_drop_subset[of "Suc k" xs] by auto

lemma set_remaining: "k < length xs \<Longrightarrow> set xs = insert (xs ! k) (set (take k xs @ drop (Suc k) xs))"
proof -
  assume "k < length xs"
  then have "xs = take k xs @ xs ! k # drop (Suc k) xs" by (rule id_take_nth_drop)
  then have "set xs = set (take k xs @ xs ! k # drop (Suc k) xs)" by simp
  then show ?thesis by simp
qed

lemma Select_loop_rule [case_names finished failed succeeded]:
  assumes base: "\<And>i fr. P i [] fr (None, fr, [])"
    and fail: "\<And>i futs fr j t e fr' evs.
       (j, t) \<in> set futs \<Longrightarrow> t fr = (Some e, fr', evs) \<Longrightarrow>
       P i futs fr (Some e, fr', evs @ [SelectEv path j, CancelEv path])"
    and ok: "\<And>i futs fr j t fr' evs rest r fr'' evs'.
       set futs = insert (j, t) (set rest) \<Longrightarrow> length futs = Suc (length rest) \<Longrightarrow>
       t fr = (None, fr', evs) \<Longrightarrow>
       Select_loop env path (Suc i) rest fr' = (r, fr'', evs') \<Longrightarrow>
       P (Suc i) rest fr' (r, fr'', evs') \<Longrightarrow>
       P i futs fr (r, fr'', evs @ [SelectEv path j] @ evs')"
  shows "P i futs fr (Select_loop env path i futs fr)"
proof (induction "length futs" arbitrary: i futs fr)
  case 0
  then show ?case by (simp add: base)
next
  case (Suc n)
  then obtain f fs where futs: "futs = f # fs" by (cases futs) auto
  let ?k = "pick env path i mod length futs"
  let ?rest = "take ?k futs @ drop (Suc ?k) futs"
  have klt: "?k < length futs" using futs by simp
  have len: "n = length ?rest" using Suc.hyps(2) klt by auto
  obtain j t where jt: "futs ! ?k = (j, t)" by (cases "futs ! ?k")
  have mem: "(j, t) \<in> set futs" using klt jt by (metis nth_mem)
  obtain r fr' evs where run: "t fr = (r, fr', evs)" by (cases "t fr")
  show ?case
  proof (cases r)
    case (Some e)
    have "Select_loop env path i futs fr = (Some e, fr', evs @ [SelectEv path j, CancelEv path])"
      using jt run Some unfolding futs by (simp add: Let_def)
    moreover have "P i futs fr (Some e, fr', evs @ [SelectEv path j, CancelEv path])"
      using fail[OF mem] run Some by simp
    ultimately show ?thesis by simp
  next
    case None
    obtain r2 fr2 evs2 where rec: "Select_loop env path (Suc i) ?rest fr' = (r2, fr2, evs2)"
      by (cases "Select_loop env path (Suc i) ?rest fr'")
    have eq: "Select_loop env path i futs fr = (r2, fr2, evs @ [SelectEv path j] @ evs2)"
      using jt run None rec unfolding futs by (simp add: Let_def)
    have "P (Suc i) ?rest fr' (Select_loop env path (Suc i) ?rest fr')"
      by (rule Suc.hyps(1)[OF len])
    then have p: "P (Suc i) ?rest fr' (r2, fr2, evs2)" using rec by simp
    have s: "set futs = insert (j, t) (set ?rest)" using set_remaining[OF klt] jt by simp
    have l: "length futs = Suc (length ?rest)" using len Suc.hyps(2) by simp
    have "P i futs fr (r2, fr2, evs @ [SelectEv path j] @ evs2)"
      using ok[OF s l _ rec p] run None by simp
    then show ?thesis using eq by simp
  qed
qed

lemma obliviousD:
  assumes "oblivious X" and "X fr1 = (r1, g1, evs1)" and "X fr2 = (r2, g2, evs2)"
  shows "r1 = r2" and "evs1 = evs2" and "variables g1 = variables fr1"
    and "results fr1 = results fr2 \<Longrightarrow> results g1 = results g2"
  using assms unfolding oblivious_def by (metis fst_conv snd_conv)+

lemma Select_loop_unfold:
  assumes "futs \<noteq> []"
  shows "Select_loop env path i futs fr =
     (let k = pick env path i mod length futs in
      case snd (futs ! k) fr of
        (Some err, fr', evs) \<Rightarrow> (Some err, fr', evs @ [SelectEv path (fst (futs ! k)), CancelEv path])
      | (None, fr', evs) \<Rightarrow>
          (case Select_loop env path (Suc i) (take k futs @ drop (Suc k) futs) fr' of
             (r, fr'', evs') \<Rightarrow> (r, fr'', evs @ [SelectEv path (fst (futs ! k))] @ evs')))"
proof -
  obtain f fs where futs: "futs = f # fs" using assms by (cases futs) auto
  show ?thesis unfolding futs by (rule Select_loop.simps(2))
qed

lemma Select_loop_oblivious:
  assumes "\<forall>(j, t) \<in> set futs. oblivious t"
  shows "oblivious (Select_loop env path i futs)"
  using assms
proof (induction "length futs" arbitrary: i futs)
  case 0
  then show ?case by (simp add: oblivious_def)
next
  case (Suc n)
  then have ne: "futs \<noteq> []" by auto
  let ?k = "pick env path i mod length futs"
  let ?rest = "take ?k futs @ drop (Suc ?k) futs"
  have klt: "?k < length futs" using ne by simp
  have len: "n = length ?rest" using Suc.hyps(2) klt by auto
  obtain j t where jt: "futs ! ?k = (j, t)" by (cases "futs ! ?k")
  have "(j, t) \<in> set futs" using klt jt by (metis nth_mem)
  then have ot: "oblivious t" using Suc.prems by auto
  have "\<forall>(j, t) \<in> set ?rest. oblivious t"
    using Suc.prems remaining_subset[of ?k futs] by blast
  then have IH: "oblivious (Select_loop env path (Suc i) ?rest)"
    using Suc.hyps(1)[OF len] by simp
  show ?case
    unfolding oblivious_def
  proof (intro allI)
    fix fr1 fr2
    obtain r1 g1 e1 where t1: "t fr1 = (r1, g1, e1)" by (cases "t fr1")
    obtain r2 g2 e2 where t2: "t fr2 = (r2, g2, e2)" by (cases "t fr2")
    note o = obliviousD[OF ot t1 t2]
    let ?L = "Select_loop env path i futs"
    show "err_of (?L fr1) = err_of (?L fr2) \<and> events_of (?L fr1) = events_of (?L fr2) \<and>
          variables (frame_of (?L fr1)) = variables fr1 \<and>
          (results fr1 = results fr2 \<longrightarrow> results (frame_of (?L fr1)) = results (frame_of (?L fr2)))"
    proof (cases r1)
      case (Some e)
      then show ?thesis using o t1 t2 jt by (simp add: Select_loop_unfold[OF ne] Let_def)
    next
      case None
      obtain a1 b1 c1 where s1: "Select_loop env path (Suc i) ?rest g1 = (a1, b1, c1)"
        by (cases "Select_loop env path (Suc i) ?rest g1")
      obtain a2 b2 c2 where s2: "Select_loop env path (Suc i) ?rest g2 = (a2, b2, c2)"
        by (cases "Select_loop env path (Suc i) ?rest g2")
      note o' = obliviousD[OF IH s1 s2]
      have L1: "?L fr1 = (a1, b1, e1 @ [SelectEv path j] @ c1)"
        using None t1 jt s1 by (simp add: Select_loop_unfold[OF ne] Let_def)
      have L2: "?L fr2 = (a2, b2, e2 @ [SelectEv path j] @ c2)"
        using None o(1) t2 jt s2 by (simp add: Select_loop_unfold[OF ne] Let_def)
      show ?thesis using o o' by (simp add: L1 L2)
    qed
  qed
qed


lemma executeSteps_oblivious: "oblivious (executeSteps env ctx path stage)"
  by (auto simp: oblivious_def executeSteps_def split: sum.splits)



lemma Stage_Parallel_oblivious:
  "oblivious (Stage_execute env ctx path s)" "oblivious (Parallel_execute env ctx path p)"
proof (induction env ctx path s "fr::Frame" and env ctx path p "fr::Frame" rule: Stage_execute_Parallel_execute.induct)
  case (1 env ctx path name agent steps ff par cl fr)
  let ?st = "Stage name agent steps ff par cl"
  show ?case
  proof (cases "0 < length par")
    case False
    then have "Stage_execute env ctx path ?st = executeSteps env ctx path ?st"
      by (intro ext) (simp add: Stage_execute.simps)
    then show ?thesis by (simp add: executeSteps_oblivious)
  next
    case True
    note op = 1[OF True]
    show ?thesis
      unfolding oblivious_def
    proof (intro allI)
      fix fr1 fr2
      let ?S = "Stage_execute env ctx path ?st"
      obtain r1 g1 e1 where p1: "Parallel_execute env ctx path par (fr1\<lparr>results := Map.empty\<rparr>) = (r1, g1, e1)"
        by (cases "Parallel_execute env ctx path par (fr1\<lparr>results := Map.empty\<rparr>)")
      obtain r2 g2 e2 where p2: "Parallel_execute env ctx path par (fr2\<lparr>results := Map.empty\<rparr>) = (r2, g2, e2)"
        by (cases "Parallel_execute env ctx path par (fr2\<lparr>results := Map.empty\<rparr>)")
      note o = obliviousD[OF op p1 p2]
      have res: "results g1 = results g2" using o(4) by simp
      show "err_of (?S fr1) = err_of (?S fr2) \<and> events_of (?S fr1) = events_of (?S fr2) \<and>
          variables (frame_of (?S fr1)) = variables fr1 \<and>
          (results fr1 = results fr2 \<longrightarrow> results (frame_of (?S fr1)) = results (frame_of (?S fr2)))"
      proof (cases r1)
        case (Some e)
        then show ?thesis using True o p1 p2 by (simp add: Stage_execute.simps)
      next
        case None
        let ?f1 = "fr1\<lparr>variables := variables g1, results := (results fr1)(name \<mapsto> Nested (results g1))\<rparr>"
        let ?f2 = "fr2\<lparr>variables := variables g2, results := (results fr2)(name \<mapsto> Nested (results g2))\<rparr>"
        obtain a1 b1 c1 where s1: "executeSteps env ctx path ?st ?f1 = (a1, b1, c1)"
          by (cases "executeSteps env ctx path ?st ?f1")
        obtain a2 b2 c2 where s2: "executeSteps env ctx path ?st ?f2 = (a2, b2, c2)"
          by (cases "executeSteps env ctx path ?st ?f2")
        note o' = obliviousD[OF executeSteps_oblivious s1 s2]
        have S1: "?S fr1 = (a1, b1, e1 @ c1)" using True None p1 s1 by (simp add: Stage_execute.simps)
        have S2: "?S fr2 = (a2, b2, e2 @ c2)" using True None o(1) p2 s2 by (simp add: Stage_execute.simps)
        show ?thesis using o o' res by (simp add: S1 S2)
      qed
    qed
  qed
next
  case (2 env ctx path p fr)
  let ?cc = "WithCancel ctx path"
  let ?futs = "map (\<lambda>(i, s). (i, executeAsync (\<lambda>c fr'. Stage_execute env c (path @ [i]) s fr') ?cc)) (enumerate 0 p)"
  have "oblivious t" if "(j, t) \<in> set ?futs" for j t
  proof -
    from that have j: "j < length p" and t: "t = Stage_execute env ?cc (path @ [j]) (p ! j)"
      unfolding futures_set by auto
    have "(j, p ! j) \<in> set (enumerate 0 p)" using j by (simp add: in_set_enumerate_eq)
    from 2[OF refl this refl] show ?thesis unfolding t .
  qed
  then have "\<forall>(j, t) \<in> set ?futs. oblivious t" by blast
  then have "oblivious (Select_loop env path 0 ?futs)" by (rule Select_loop_oblivious)
  then have OL: "oblivious (Select_loop env path 0 ?futs)" .
  have PE: "Parallel_execute env ctx path p fr =
     (case Select_loop env path 0 ?futs fr of
        (err, fr', evs) \<Rightarrow> (err, fr', map (\<lambda>(i, s). GoEv ?cc (path @ [i])) (enumerate 0 p) @ evs))" for fr
    by (simp add: Parallel_execute.simps Let_def)
  show ?case
    unfolding oblivious_def
  proof (intro allI)
    fix fr1 fr2
    obtain a1 b1 c1 where L1: "Select_loop env path 0 ?futs fr1 = (a1, b1, c1)"
      by (cases "Select_loop env path 0 ?futs fr1")
    obtain a2 b2 c2 where L2: "Select_loop env path 0 ?futs fr2 = (a2, b2, c2)"
      by (cases "Select_loop env path 0 ?futs fr2")
    note o = obliviousD[OF OL L1 L2]
    let ?P = "Parallel_execute env ctx path p"
    have P1: "?P fr1 = (a1, b1, map (\<lambda>(i, s). GoEv ?cc (path @ [i])) (enumerate 0 p) @ c1)"
      unfolding PE L1 by simp
    have P2: "?P fr2 = (a2, b2, map (\<lambda>(i, s). GoEv ?cc (path @ [i])) (enumerate 0 p) @ c2)"
      unfolding PE L2 by simp
    show "err_of (?P fr1) = err_of (?P fr2) \<and> events_of (?P fr1) = events_of (?P fr2) \<and>
          variables (frame_of (?P fr1)) = variables fr1 \<and>
          (results fr1 = results fr2 \<longrightarrow> results (frame_of (?P fr1)) = results (frame_of (?P fr2)))"
      unfolding P1 P2 using o by simp
  qed
qed


lemma Parallel_execute_futures:
  "Parallel_execute env ctx path p fr =
     (case Select_loop env path 0 (branch_futures env (WithCancel ctx path) path p) fr of
        (err, fr', evs) \<Rightarrow> (err, fr', go_events (WithCancel ctx path) path p @ evs))"
  by (simp add: Parallel_execute.simps Let_def)

lemma go_events_set: "set (go_events cc path p) = {GoEv cc (path @ [i]) | i. i < length p}"
  by (auto simp: in_set_enumerate_eq image_iff)

lemma Select_loop_events:
  assumes "\<forall>(j, t) \<in> set futs. \<forall>fr. \<forall>ev \<in> set (events_of (t fr)). strict_prefix path (event_path ev)"
  shows "\<forall>ev \<in> set (events_of (Select_loop env path i futs fr)). group_event path ev"
proof -
  let ?A = "\<lambda>futs. \<forall>(j, t) \<in> set futs. \<forall>fr. \<forall>ev \<in> set (events_of (t fr)). strict_prefix path (event_path ev)"
  have "?A futs \<longrightarrow> (\<forall>ev \<in> set (events_of (Select_loop env path i futs fr)). group_event path ev)"
  proof (rule Select_loop_rule[where P = "\<lambda>i futs fr out. ?A futs \<longrightarrow> (\<forall>ev \<in> set (events_of out). group_event path ev)"], goal_cases)
    case (1 i fr)
    show ?case by simp
  next
    case failed: (2 i futs fr j t e fr' evs)
    show ?case
    proof
      assume "?A futs"
      with failed(1) have "\<forall>ev \<in> set (events_of (t fr)). strict_prefix path (event_path ev)" by blast
      then show "\<forall>ev \<in> set (events_of (Some e, fr', evs @ [SelectEv path j, CancelEv path])). group_event path ev"
        using failed(2) by (auto simp: group_event_def)
    qed
  next
    case succeeded: (3 i futs fr j t fr' evs rest r fr'' evs')
    show ?case
    proof
      assume a: "?A futs"
      with succeeded(1) have "\<forall>ev \<in> set (events_of (t fr)). strict_prefix path (event_path ev)" by blast
      then have 1: "\<forall>ev \<in> set evs. group_event path ev" using succeeded(3) by (auto simp: group_event_def)
      have "?A rest" using a succeeded(1) by blast
      then have "\<forall>ev \<in> set evs'. group_event path ev" using succeeded(5) by simp
      then show "\<forall>ev \<in> set (events_of (r, fr'', evs @ [SelectEv path j] @ evs')). group_event path ev"
        using 1 by (auto simp: group_event_def)
    qed
  qed
  then show ?thesis using assms by blast
qed

lemma executeSteps_events:
  "ev \<in> set (events_of (executeSteps env ctx path stage fr)) \<Longrightarrow> ev = ActivityEv ctx path"
  by (auto simp: executeSteps_def split: if_splits sum.splits)

lemma Stage_Parallel_events:
  "\<forall>ev \<in> set (events_of (Stage_execute env ctx path s fr)). ev = ActivityEv ctx path \<or> group_event path ev"
  "\<forall>ev \<in> set (events_of (Parallel_execute env ctx path p fr)). group_event path ev"
proof (induction env ctx path s fr and env ctx path p fr rule: Stage_execute_Parallel_execute.induct)
  case (1 env ctx path name agent steps ff par cl fr)
  let ?st = "Stage name agent steps ff par cl"
  show ?case
  proof (cases "0 < length par")
    case False
    then show ?thesis using executeSteps_events by (auto simp: Stage_execute.simps)
  next
    case True
    obtain r g es where p: "Parallel_execute env ctx path par (fr\<lparr>results := Map.empty\<rparr>) = (r, g, es)"
      by (cases "Parallel_execute env ctx path par (fr\<lparr>results := Map.empty\<rparr>)")
    have es: "\<forall>ev \<in> set es. group_event path ev" using 1[OF True] p by simp
    show ?thesis
    proof (cases r)
      case (Some e)
      then show ?thesis using True p es by (simp add: Stage_execute.simps)
    next
      case None
      let ?f = "fr\<lparr>variables := variables g, results := (results fr)(name \<mapsto> Nested (results g))\<rparr>"
      obtain a b c where s: "executeSteps env ctx path ?st ?f = (a, b, c)"
        by (cases "executeSteps env ctx path ?st ?f")
      have "\<forall>ev \<in> set c. ev = ActivityEv ctx path"
        using executeSteps_events[of _ env ctx path ?st ?f] s by simp
      then show ?thesis using None True p es s by (auto simp: Stage_execute.simps)
    qed
  qed
next
  case (2 env ctx path p fr)
  let ?cc = "WithCancel ctx path"
  have "\<forall>(j, t) \<in> set (branch_futures env ?cc path p). \<forall>fr. \<forall>ev \<in> set (events_of (t fr)). strict_prefix path (event_path ev)"
  proof (clarify)
    fix j t fr ev
    assume jt: "(j, t) \<in> set (branch_futures env ?cc path p)" and ev: "ev \<in> set (events_of (t fr))"
    from jt have j: "j < length p" and t: "t = Stage_execute env ?cc (path @ [j]) (p ! j)"
      unfolding futures_set by auto
    have "(j, p ! j) \<in> set (enumerate 0 p)" using j by (simp add: in_set_enumerate_eq)
    from 2[OF refl this refl, of ?cc fr] ev t
    have "ev = ActivityEv ?cc (path @ [j]) \<or> group_event (path @ [j]) ev" by blast
    then have "prefix (path @ [j]) (event_path ev)"
      by (auto simp: group_event_def strict_prefix_def)
    then show "strict_prefix path (event_path ev)"
      by (metis append_prefixD prefix_order.less_le same_prefix_nil snoc_eq_iff_butlast self_append_conv prefix_def append.assoc not_Cons_self2)
  qed
  then have "\<forall>ev \<in> set (events_of (Select_loop env path 0 (branch_futures env ?cc path p) fr)). group_event path ev"
    by (rule Select_loop_events)
  moreover have "\<forall>ev \<in> set (go_events ?cc path p). group_event path ev"
    unfolding go_events_set by (auto simp: group_event_def strict_prefix_def)
  ultimately show ?case
    unfolding Parallel_execute_futures by (auto split: prod.splits)
qed


lemma Select_loop_outcome:
  assumes "\<forall>(j, t) \<in> set futs. oblivious t"
  shows "case Select_loop env path i futs fr of
           (None, fr', evs) \<Rightarrow>
             (\<forall>(j, t) \<in> set futs. SelectEv path j \<in> set evs \<and> (\<forall>fr0. err_of (t fr0) = None))
         | (Some e, fr', evs) \<Rightarrow>
             (\<exists>(j, t) \<in> set futs. (\<forall>fr0. err_of (t fr0) = Some e) \<and>
                (\<exists>pre. evs = pre @ [SelectEv path j, CancelEv path]))"
proof -
  let ?A = "\<lambda>futs. \<forall>(j, t) \<in> set futs. oblivious t"
  let ?G = "\<lambda>futs out. case out of
           (None, fr', evs) \<Rightarrow>
             (\<forall>(j, t) \<in> set futs. SelectEv path j \<in> set evs \<and> (\<forall>fr0. err_of (t fr0) = None))
         | (Some e, fr', evs) \<Rightarrow>
             (\<exists>(j, t) \<in> set futs. (\<forall>fr0. err_of (t fr0) = Some e) \<and>
                (\<exists>pre. evs = pre @ [SelectEv path j, CancelEv path]))"
  have imp: "?A futs \<longrightarrow> ?G futs (Select_loop env path i futs fr)"
  proof (rule Select_loop_rule[where P = "\<lambda>i futs fr out. ?A futs \<longrightarrow> ?G futs out"], goal_cases)
    case (1 i fr)
    show ?case by simp
  next
    case failed: (2 i futs fr j t e fr' evs)
    show ?case
    proof
      assume "?A futs"
      with failed(1) have "oblivious t" by blast
      then have "\<forall>fr0. err_of (t fr0) = Some e"
        using failed(2) unfolding oblivious_def by (metis fst_conv)
      then show "?G futs (Some e, fr', evs @ [SelectEv path j, CancelEv path])"
        using failed(1) by auto
    qed
  next
    case succeeded: (3 i futs fr j t fr' evs rest r fr'' evs')
    show ?case
    proof
      assume a: "?A futs"
      with succeeded(1) have "oblivious t" by blast
      then have t: "\<forall>fr0. err_of (t fr0) = None"
        using succeeded(3) unfolding oblivious_def by (metis fst_conv)
      have "?A rest" using a succeeded(1) by blast
      then have IH: "?G rest (r, fr'', evs')" using succeeded(5) by simp
      show "?G futs (r, fr'', evs @ [SelectEv path j] @ evs')"
      proof (cases r)
        case None
        then show ?thesis using IH t succeeded(1) by auto
      next
        case (Some e)
        then obtain j' t' pre where "(j', t') \<in> set rest" "\<forall>fr0. err_of (t' fr0) = Some e"
          "evs' = pre @ [SelectEv path j', CancelEv path]" using IH by auto
        then show ?thesis using Some succeeded(1)
          by (auto intro!: bexI[of _ "(j', t')"] exI[of _ "evs @ SelectEv path j # pre"])
      qed
    qed
  qed
  from imp assms show ?thesis by (rule mp)
qed

lemma selects_append [simp]: "selects p (xs @ ys) = selects p xs + selects p ys"
  by (simp add: selects_def)

lemma selects_Nil [simp]: "selects p [] = 0"
  by (simp add: selects_def)

lemma selects_Cons_Select [simp]: "selects p (SelectEv p k # xs) = Suc (selects p xs)"
  by (simp add: selects_def)

lemma selects_Cons_Cancel [simp]: "selects p (CancelEv q # xs) = selects p xs"
  by (simp add: selects_def)

lemma selects_inner:
  assumes "\<forall>ev \<in> set evs. strict_prefix p (event_path ev)"
  shows "selects p evs = 0"
  using assms by (induction evs) (auto simp: selects_def split: event.splits)

lemma Select_loop_selects:
  assumes "\<forall>(j, t) \<in> set futs. \<forall>fr. \<forall>ev \<in> set (events_of (t fr)). strict_prefix path (event_path ev)"
  shows "selects path (events_of (Select_loop env path i futs fr)) \<le> length futs \<and>
         (err_of (Select_loop env path i futs fr) = None \<longrightarrow>
            selects path (events_of (Select_loop env path i futs fr)) = length futs)"
proof -
  let ?A = "\<lambda>futs. \<forall>(j, t) \<in> set futs. \<forall>fr. \<forall>ev \<in> set (events_of (t fr)). strict_prefix path (event_path ev)"
  let ?G = "\<lambda>futs out. selects path (events_of out) \<le> length futs \<and>
         (err_of out = None \<longrightarrow> selects path (events_of out) = length futs)"
  have "?A futs \<longrightarrow> ?G futs (Select_loop env path i futs fr)"
  proof (rule Select_loop_rule[where P = "\<lambda>i futs fr out. ?A futs \<longrightarrow> ?G futs out"], goal_cases)
    case (1 i fr)
    show ?case by simp
  next
    case failed: (2 i futs fr j t e fr' evs)
    show ?case
    proof
      assume "?A futs"
      with failed(1) have "\<forall>ev \<in> set (events_of (t fr)). strict_prefix path (event_path ev)" by blast
      then have "selects path evs = 0" using failed(2) selects_inner by simp
      moreover have "Suc 0 \<le> length futs" using failed(1) by (cases futs) auto
      ultimately show "?G futs (Some e, fr', evs @ [SelectEv path j, CancelEv path])" by simp
    qed
  next
    case succeeded: (3 i futs fr j t fr' evs rest r fr'' evs')
    show ?case
    proof
      assume a: "?A futs"
      with succeeded(1) have "\<forall>ev \<in> set (events_of (t fr)). strict_prefix path (event_path ev)" by blast
      then have 0: "selects path evs = 0" using succeeded(3) selects_inner by simp
      have "?A rest" using a succeeded(1) by blast
      then have "?G rest (r, fr'', evs')" using succeeded(5) by simp
      then show "?G futs (r, fr'', evs @ [SelectEv path j] @ evs')"
        using 0 succeeded(2) by simp
    qed
  qed
  then show ?thesis using assms by blast
qed


lemma branch_futures_oblivious:
  "\<forall>(j, t) \<in> set (branch_futures env cc path p). oblivious t"
  unfolding futures_set using Stage_Parallel_oblivious(1) by auto

lemma prefix_snoc_strict: "prefix (path @ [j]) q \<Longrightarrow> strict_prefix path q"
  by (auto simp: prefix_def strict_prefix_def)

lemma Stage_execute_prefix:
  "ev \<in> set (events_of (Stage_execute env ctx path s fr)) \<Longrightarrow> prefix path (event_path ev)"
  using Stage_Parallel_events(1)[of env ctx path s fr]
  by (auto simp: group_event_def strict_prefix_def)

lemma branch_futures_inner:
  "\<forall>(j, t) \<in> set (branch_futures env cc path p).
     \<forall>fr. \<forall>ev \<in> set (events_of (t fr)). strict_prefix path (event_path ev)"
proof (clarify)
  fix j t fr ev
  assume "(j, t) \<in> set (branch_futures env cc path p)" and ev: "ev \<in> set (events_of (t fr))"
  then have "t = Stage_execute env cc (path @ [j]) (p ! j)" unfolding futures_set by auto
  with ev have "prefix (path @ [j]) (event_path ev)" using Stage_execute_prefix by blast
  then show "strict_prefix path (event_path ev)" by (rule prefix_snoc_strict)
qed

lemma selects_go_events [simp]: "selects path (go_events cc path p) = 0"
  by (simp add: selects_def filter_empty_conv split_beta)

lemma Parallel_execute_outcome:
  "case Parallel_execute env ctx path p fr of
     (None, fr', evs) \<Rightarrow>
       selects path evs = length p \<and>
       (\<forall>k<length p. SelectEv path k \<in> set evs \<and>
          (\<forall>fr0. err_of (Stage_execute env (WithCancel ctx path) (path @ [k]) (p ! k) fr0) = None))
   | (Some e, fr', evs) \<Rightarrow>
       selects path evs \<le> length p \<and>
       (\<exists>k<length p.
          (\<forall>fr0. err_of (Stage_execute env (WithCancel ctx path) (path @ [k]) (p ! k) fr0) = Some e) \<and>
          (\<exists>pre. evs = go_events (WithCancel ctx path) path p @ pre @ [SelectEv path k, CancelEv path]))"
proof -
  let ?cc = "WithCancel ctx path"
  let ?futs = "branch_futures env ?cc path p"
  obtain r g es where L: "Select_loop env path 0 ?futs fr = (r, g, es)"
    by (cases "Select_loop env path 0 ?futs fr")
  have P: "Parallel_execute env ctx path p fr = (r, g, go_events ?cc path p @ es)"
    unfolding Parallel_execute_futures L by simp
  have len: "length ?futs = length p" by simp
  note out = Select_loop_outcome[where futs = ?futs and env = env and path = path and i = 0 and fr = fr,
      OF branch_futures_oblivious, unfolded L]
  note cnt = Select_loop_selects[where futs = ?futs and env = env and path = path and i = 0 and fr = fr,
      OF branch_futures_inner, unfolded L len]
  show ?thesis
  proof (cases r)
    case None
    have "SelectEv path k \<in> set es \<and>
          (\<forall>fr0. err_of (Stage_execute env ?cc (path @ [k]) (p ! k) fr0) = None)" if "k < length p" for k
    proof -
      have "(k, Stage_execute env ?cc (path @ [k]) (p ! k)) \<in> set ?futs"
        unfolding futures_set using that by blast
      moreover from out have "\<forall>(j, t) \<in> set ?futs. SelectEv path j \<in> set es \<and> (\<forall>fr0. err_of (t fr0) = None)"
        unfolding None by (simp only: option.case prod.case)
      ultimately show ?thesis by blast
    qed
    then show ?thesis unfolding P using None cnt by simp
  next
    case (Some e)
    from out have "\<exists>(j, t) \<in> set ?futs. (\<forall>fr0. err_of (t fr0) = Some e) \<and>
                (\<exists>pre. es = pre @ [SelectEv path j, CancelEv path])"
      unfolding Some by (simp only: option.case prod.case)
    then obtain j t pre where jt: "(j, t) \<in> set ?futs" and e: "\<forall>fr0. err_of (t fr0) = Some e"
      and es: "es = pre @ [SelectEv path j, CancelEv path]"
      by blast
    from jt have "j < length p" and "t = Stage_execute env ?cc (path @ [j]) (p ! j)"
      unfolding futures_set by auto
    then show ?thesis unfolding P using Some cnt e es by auto
  qed
qed



section \<open>The execution engine: the claims\<close>

lemmas eval_simps =
  Parallel_execute.simps Stage_execute.simps executeSteps_def executeAsync_def
  Let_def leaf_def two_branches_def parallel_stage_def three_stages_def empty_frame_def
  env_ok_def env_failing_def echo_step_def selects_def executed_def GroovyDSLWorkflow_def

lemma go_events_mem: "j < length p \<Longrightarrow> GoEv cc (path @ [j]) \<in> set (go_events cc path p)"
  unfolding go_events_set by blast

text \<open>
  C1, as amended. \<open>Parallel.execute\<close> on a group of N branches waits on the selector at most
  N times. When it returns nil it has waited exactly N times, the future of every branch has
  been delivered and every branch succeeded. When a wait delivers a failed branch, it calls
  the cancel handler and returns the error of that branch at once: that wait and the
  cancellation are the last things it does, and the futures still pending are not waited
  for.
\<close>

theorem C1_parallel_returns_at_first_failure:
  "case Parallel_execute env ctx path p fr of
     (None, fr', evs) \<Rightarrow>
       selects path evs = length p \<and>
       (\<forall>k<length p. SelectEv path k \<in> set evs \<and>
          (\<forall>fr0. err_of (Stage_execute env (WithCancel ctx path) (path @ [k]) (p ! k) fr0) = None))
   | (Some e, fr', evs) \<Rightarrow>
       selects path evs \<le> length p \<and>
       (\<exists>k<length p.
          (\<forall>fr0. err_of (Stage_execute env (WithCancel ctx path) (path @ [k]) (p ! k) fr0) = Some e) \<and>
          (\<exists>pre. evs = pre @ [SelectEv path k, CancelEv path]))"
proof -
  obtain r g es where P: "Parallel_execute env ctx path p fr = (r, g, es)"
    by (cases "Parallel_execute env ctx path p fr")
  note out = Parallel_execute_outcome[where env = env and ctx = ctx and path = path and p = p and fr = fr, unfolded P]
  show ?thesis
  proof (cases r)
    case None
    then show ?thesis using out unfolding P by simp
  next
    case (Some e)
    from out obtain k pre where "k < length p"
      "\<forall>fr0. err_of (Stage_execute env (WithCancel ctx path) (path @ [k]) (p ! k) fr0) = Some e"
      "es = go_events (WithCancel ctx path) path p @ pre @ [SelectEv path k, CancelEv path]"
      and le: "selects path es \<le> length p"
      unfolding Some by auto
    then have "\<exists>k<length p.
          (\<forall>fr0. err_of (Stage_execute env (WithCancel ctx path) (path @ [k]) (p ! k) fr0) = Some e) \<and>
          (\<exists>pre. es = pre @ [SelectEv path k, CancelEv path])"
      by (metis append.assoc)
    then show ?thesis unfolding P Some using le by simp
  qed
qed

theorem C1_witness:
  "err_of (Parallel_execute env_ok RootCtx [0] two_branches empty_frame) = None \<and>
   selects [0] (events_of (Parallel_execute env_ok RootCtx [0] two_branches empty_frame))
     = length two_branches \<and>
   SelectEv [0] 0 \<in> set (events_of (Parallel_execute env_ok RootCtx [0] two_branches empty_frame)) \<and>
   SelectEv [0] 1 \<in> set (events_of (Parallel_execute env_ok RootCtx [0] two_branches empty_frame))"
  using C1_parallel_returns_at_first_failure
          [where env = env_ok and ctx = RootCtx and path = "[0]" and p = two_branches
             and fr = empty_frame]
  by (simp add: eval_simps)

text \<open>
  The claim as stated fails on a group of two branches whose first branch fails: after one
  wait \<open>Parallel.execute\<close> returns, and the future of the second branch is never delivered.
\<close>

theorem C1_counterexample:
  "length two_branches = 2 \<and>
   err_of (Parallel_execute (env_failing [0, 0]) RootCtx [0] two_branches empty_frame)
     = Some (Error ''exit status 1'') \<and>
   selects [0] (events_of (Parallel_execute (env_failing [0, 0]) RootCtx [0] two_branches empty_frame))
     = 1 \<and>
   SelectEv [0] 1
     \<notin> set (events_of (Parallel_execute (env_failing [0, 0]) RootCtx [0] two_branches empty_frame))"
  by (simp add: eval_simps)

text \<open>
  C3. In a parallel group in which some branch fails, \<open>Parallel.execute\<close> returns the error
  of a failing branch (the first one that a wait delivers), and on return the child scope
  derived by \<open>workflow.WithCancel\<close> is cancelled; the coroutine of every branch was started
  under that scope, so the branches that have not completed run under a cancelled scope.
\<close>

theorem C3_failed_branch_cancels_scope:
  assumes "i < length p"
    and "err_of (Stage_execute env (WithCancel ctx path) (path @ [i]) (p ! i) fr0) \<noteq> None"
  shows "\<exists>k<length p. \<exists>e.
           err_of (Parallel_execute env ctx path p fr) = Some e \<and>
           (\<forall>fr1. err_of (Stage_execute env (WithCancel ctx path) (path @ [k]) (p ! k) fr1) = Some e) \<and>
           cancelled (events_of (Parallel_execute env ctx path p fr)) (WithCancel ctx path) \<and>
           (\<forall>j<length p. GoEv (WithCancel ctx path) (path @ [j])
                            \<in> set (events_of (Parallel_execute env ctx path p fr)))"
proof -
  obtain r g es where P: "Parallel_execute env ctx path p fr = (r, g, es)"
    by (cases "Parallel_execute env ctx path p fr")
  note out = Parallel_execute_outcome[where env = env and ctx = ctx and path = path and p = p and fr = fr, unfolded P]
  show ?thesis
  proof (cases r)
    case None
    then have "err_of (Stage_execute env (WithCancel ctx path) (path @ [i]) (p ! i) fr0) = None"
      using out assms(1) by simp
    with assms(2) show ?thesis by simp
  next
    case (Some e)
    from out obtain k pre where k: "k < length p"
      and e: "\<forall>fr0. err_of (Stage_execute env (WithCancel ctx path) (path @ [k]) (p ! k) fr0) = Some e"
      and es: "es = go_events (WithCancel ctx path) path p @ pre @ [SelectEv path k, CancelEv path]"
      unfolding Some by auto
    have "cancelled es (WithCancel ctx path)" unfolding es by simp
    moreover have "\<forall>j<length p. GoEv (WithCancel ctx path) (path @ [j]) \<in> set es"
      unfolding es using go_events_mem by simp
    ultimately show ?thesis unfolding P using Some k e by auto
  qed
qed

theorem C3_witness:
  "(1::nat) < length two_branches \<and>
   err_of (Stage_execute (env_failing [0, 1]) (WithCancel RootCtx [0]) ([0] @ [1])
             (two_branches ! 1) empty_frame) \<noteq> None \<and>
   err_of (Parallel_execute (env_failing [0, 1]) RootCtx [0] two_branches empty_frame)
     = Some (Error ''exit status 1'') \<and>
   cancelled (events_of (Parallel_execute (env_failing [0, 1]) RootCtx [0] two_branches empty_frame))
     (WithCancel RootCtx [0])"
  using C3_failed_branch_cancels_scope
          [where i = 1 and p = two_branches and env = "env_failing [0, 1]" and ctx = RootCtx
             and path = "[0]" and fr0 = empty_frame and fr = empty_frame]
  by (simp add: eval_simps)

lemma Parallel_execute_no_own_activity:
  "ActivityEv c path \<notin> set (events_of (Parallel_execute env ctx path p fr))"
  using Stage_Parallel_events(2)[where env = env and ctx = ctx and path = path and p = p and fr = fr]
  by (auto simp: group_event_def)

text \<open>
  C8. For a stage with both a parallel group and steps: when the group fails, the stage
  returns the group's error and its events are those of the group, among which there is no
  activity of the stage itself; when the group succeeds, the activity of the stage's own
  steps comes after every event of the group, and by then all futures of the group have been
  delivered.
\<close>

theorem C8_steps_follow_parallel_block:
  assumes "par \<noteq> []" and "steps \<noteq> []"
  shows "case Parallel_execute env ctx path par (fr\<lparr>results := Map.empty\<rparr>) of
      (Some err, pfr, pevs) \<Rightarrow>
        err_of (Stage_execute env ctx path (Stage name agent steps ff par cl) fr) = Some err \<and>
        events_of (Stage_execute env ctx path (Stage name agent steps ff par cl) fr) = pevs \<and>
        (\<forall>c. ActivityEv c path
              \<notin> set (events_of (Stage_execute env ctx path (Stage name agent steps ff par cl) fr)))
    | (None, pfr, pevs) \<Rightarrow>
        events_of (Stage_execute env ctx path (Stage name agent steps ff par cl) fr)
          = pevs @ [ActivityEv ctx path] \<and>
        (\<forall>c. ActivityEv c path \<notin> set pevs) \<and>
        selects path pevs = length par \<and> (\<forall>k<length par. SelectEv path k \<in> set pevs)"
proof -
  let ?fr = "fr\<lparr>results := Map.empty\<rparr>"
  obtain r g es where P: "Parallel_execute env ctx path par ?fr = (r, g, es)"
    by (cases "Parallel_execute env ctx path par ?fr")
  note out = Parallel_execute_outcome[where env = env and ctx = ctx and path = path and p = par and fr = ?fr, unfolded P]
  have own: "\<forall>c. ActivityEv c path \<notin> set es"
    using Parallel_execute_no_own_activity[where path = path and env = env and ctx = ctx and p = par and fr = ?fr] unfolding P by simp
  show ?thesis
  proof (cases r)
    case (Some e)
    then show ?thesis unfolding P using assms(1) P own by (simp add: Stage_execute.simps)
  next
    case None
    then show ?thesis unfolding P using assms P own out
      by (simp add: Stage_execute.simps executeSteps_def split: sum.splits)
  qed
qed

theorem C8_witness:
  "two_branches \<noteq> [] \<and> [echo_step] \<noteq> [] \<and>
   events_of (Stage_execute env_ok RootCtx [0] parallel_stage empty_frame)
     = events_of (Parallel_execute env_ok RootCtx [0] two_branches empty_frame)
       @ [ActivityEv RootCtx [0]] \<and>
   err_of (Stage_execute (env_failing [0, 1]) RootCtx [0] parallel_stage empty_frame)
     = Some (Error ''exit status 1'') \<and>
   ActivityEv RootCtx [0]
     \<notin> set (events_of (Stage_execute (env_failing [0, 1]) RootCtx [0] parallel_stage empty_frame))"
  using C8_steps_follow_parallel_block
          [where par = two_branches and steps = "[echo_step]" and env = env_ok and ctx = RootCtx
             and path = "[0]" and fr = empty_frame and name = "''Parallel Stage''"
             and agent = None and ff = "Some True" and cl = "''}''"]
        C8_steps_follow_parallel_block
          [where par = two_branches and steps = "[echo_step]" and env = "env_failing [0, 1]"
             and ctx = RootCtx and path = "[0]" and fr = empty_frame
             and name = "''Parallel Stage''" and agent = None and ff = "Some True" and cl = "''}''"]
  by (simp add: eval_simps)

lemma GroovyDSLWorkflow_loop_oblivious: "oblivious (GroovyDSLWorkflow_loop env ctx i stages)"
proof (induction stages arbitrary: i)
  case Nil
  show ?case by (simp add: oblivious_def)
next
  case (Cons s stages)
  note os = Stage_Parallel_oblivious(1)[where env = env and ctx = ctx and path = "[i]" and s = s]
  show ?case
    unfolding oblivious_def
  proof (intro allI)
    fix fr1 fr2
    let ?L = "GroovyDSLWorkflow_loop env ctx i (s # stages)"
    obtain r1 g1 e1 where t1: "Stage_execute env ctx [i] s fr1 = (r1, g1, e1)"
      by (cases "Stage_execute env ctx [i] s fr1")
    obtain r2 g2 e2 where t2: "Stage_execute env ctx [i] s fr2 = (r2, g2, e2)"
      by (cases "Stage_execute env ctx [i] s fr2")
    note o = obliviousD[OF os t1 t2]
    show "err_of (?L fr1) = err_of (?L fr2) \<and> events_of (?L fr1) = events_of (?L fr2) \<and>
          variables (frame_of (?L fr1)) = variables fr1 \<and>
          (results fr1 = results fr2 \<longrightarrow> results (frame_of (?L fr1)) = results (frame_of (?L fr2)))"
    proof (cases r1)
      case (Some e)
      then show ?thesis using o t1 t2 by simp
    next
      case None
      obtain a1 b1 c1 where s1: "GroovyDSLWorkflow_loop env ctx (Suc i) stages g1 = (a1, b1, c1)"
        by (cases "GroovyDSLWorkflow_loop env ctx (Suc i) stages g1")
      obtain a2 b2 c2 where s2: "GroovyDSLWorkflow_loop env ctx (Suc i) stages g2 = (a2, b2, c2)"
        by (cases "GroovyDSLWorkflow_loop env ctx (Suc i) stages g2")
      note o' = obliviousD[OF Cons.IH s1 s2]
      show ?thesis using None o o' t1 t2 s1 s2 by simp
    qed
  qed
qed

lemma oblivious_variables:
  assumes "oblivious X"
  shows "variables (frame_of (X fr)) = variables fr"
    and "err_of (X (fr\<lparr>variables := v1\<rparr>)) = err_of (X (fr\<lparr>variables := v2\<rparr>))"
    and "results (frame_of (X (fr\<lparr>variables := v1\<rparr>))) = results (frame_of (X (fr\<lparr>variables := v2\<rparr>)))"
proof -
  note a = assms[unfolded oblivious_def, rule_format]
  show "variables (frame_of (X fr)) = variables fr"
    using a[of fr fr] by simp
  show "err_of (X (fr\<lparr>variables := v1\<rparr>)) = err_of (X (fr\<lparr>variables := v2\<rparr>))"
    using a[of "fr\<lparr>variables := v1\<rparr>" "fr\<lparr>variables := v2\<rparr>"] by simp
  show "results (frame_of (X (fr\<lparr>variables := v1\<rparr>))) = results (frame_of (X (fr\<lparr>variables := v2\<rparr>)))"
    using a[of "fr\<lparr>variables := v1\<rparr>" "fr\<lparr>variables := v2\<rparr>"] by simp
qed

text \<open>
  C10. The loop over the top-level stages, \<open>Stage.execute\<close> and \<open>Parallel.execute\<close> return
  the variables map they were given, and for any two variables maps they return the same
  error and the same results map.
\<close>

theorem C10_variables_never_read_or_written:
  "variables (frame_of (GroovyDSLWorkflow_loop env ctx i stages fr)) = variables fr \<and>
   err_of (GroovyDSLWorkflow_loop env ctx i stages (fr\<lparr>variables := v1\<rparr>))
     = err_of (GroovyDSLWorkflow_loop env ctx i stages (fr\<lparr>variables := v2\<rparr>)) \<and>
   results (frame_of (GroovyDSLWorkflow_loop env ctx i stages (fr\<lparr>variables := v1\<rparr>)))
     = results (frame_of (GroovyDSLWorkflow_loop env ctx i stages (fr\<lparr>variables := v2\<rparr>))) \<and>
   variables (frame_of (Stage_execute env ctx path stage fr)) = variables fr \<and>
   err_of (Stage_execute env ctx path stage (fr\<lparr>variables := v1\<rparr>))
     = err_of (Stage_execute env ctx path stage (fr\<lparr>variables := v2\<rparr>)) \<and>
   results (frame_of (Stage_execute env ctx path stage (fr\<lparr>variables := v1\<rparr>)))
     = results (frame_of (Stage_execute env ctx path stage (fr\<lparr>variables := v2\<rparr>))) \<and>
   variables (frame_of (Parallel_execute env ctx path p fr)) = variables fr \<and>
   err_of (Parallel_execute env ctx path p (fr\<lparr>variables := v1\<rparr>))
     = err_of (Parallel_execute env ctx path p (fr\<lparr>variables := v2\<rparr>)) \<and>
   results (frame_of (Parallel_execute env ctx path p (fr\<lparr>variables := v1\<rparr>)))
     = results (frame_of (Parallel_execute env ctx path p (fr\<lparr>variables := v2\<rparr>)))"
  by (intro conjI oblivious_variables GroovyDSLWorkflow_loop_oblivious Stage_Parallel_oblivious)

theorem C10_witness:
  "variables (frame_of (GroovyDSLWorkflow_loop env_ok RootCtx 0 (Stages three_stages)
      (empty_frame\<lparr>variables := [''BRANCH'' \<mapsto> ''main'']\<rparr>))) = [''BRANCH'' \<mapsto> ''main''] \<and>
   results (frame_of (GroovyDSLWorkflow_loop env_ok RootCtx 0 (Stages three_stages)
      (empty_frame\<lparr>variables := [''BRANCH'' \<mapsto> ''main'']\<rparr>)))
   = results (frame_of (GroovyDSLWorkflow_loop env_ok RootCtx 0 (Stages three_stages)
      (empty_frame\<lparr>variables := Map.empty\<rparr>)))"
  using C10_variables_never_read_or_written
          [where env = env_ok and ctx = RootCtx and i = 0 and stages = "Stages three_stages"
             and fr = "empty_frame\<lparr>variables := [''BRANCH'' \<mapsto> ''main'']\<rparr>"
             and ?v1.0 = "[''BRANCH'' \<mapsto> ''main'']" and ?v2.0 = Map.empty]
  by simp

lemma executed_prefix_only:
  assumes "\<forall>ev \<in> set evs. prefix [i] (event_path ev)" and "j \<noteq> i"
  shows "\<not> executed evs [j]"
  using assms unfolding executed_def prefix_def by auto

text \<open>
  C4. When the first stage of a pipeline fails, \<open>GroovyDSLWorkflow\<close> returns that error (with
  the nil results map), its events are those of the first stage alone, and no later stage,
  nor any stage inside one, has been started. A pipeline \<open>[S1, S2, S3]\<close> is the case
  \<open>rest = [S2, S3]\<close>.
\<close>

theorem C4_sequential_fail_fast:
  assumes "Stages pipeline = S1 # rest"
    and "err_of (Stage_execute env ctx [0] S1 \<lparr>variables = Map.empty, results = Map.empty\<rparr>) = Some err"
  shows "fst (GroovyDSLWorkflow env ctx pipeline) = (None, Some err) \<and>
         snd (GroovyDSLWorkflow env ctx pipeline)
           = events_of (Stage_execute env ctx [0] S1 \<lparr>variables = Map.empty, results = Map.empty\<rparr>) \<and>
         (\<forall>j>0. \<not> executed (snd (GroovyDSLWorkflow env ctx pipeline)) [j])"
proof -
  let ?fr = "\<lparr>variables = Map.empty, results = Map.empty\<rparr>"
  obtain g es where S: "Stage_execute env ctx [0] S1 ?fr = (Some err, g, es)"
    using assms(2) by (cases "Stage_execute env ctx [0] S1 ?fr") auto
  have W: "GroovyDSLWorkflow env ctx pipeline = ((None, Some err), es)"
    by (simp add: GroovyDSLWorkflow_def assms(1) S)
  have "\<forall>ev \<in> set es. prefix [0] (event_path ev)"
    using Stage_execute_prefix[where env = env and ctx = ctx and path = "[0]" and s = S1 and fr = ?fr] S by simp
  then have "\<forall>j>0. \<not> executed es [j]" using executed_prefix_only by blast
  then show ?thesis unfolding W S by simp
qed

theorem C4_witness:
  "Stages three_stages = leaf ''S1'' # [leaf ''S2'', leaf ''S3''] \<and>
   err_of (Stage_execute (env_failing [0]) RootCtx [0] (leaf ''S1'')
             \<lparr>variables = Map.empty, results = Map.empty\<rparr>) = Some (Error ''exit status 1'') \<and>
   fst (GroovyDSLWorkflow (env_failing [0]) RootCtx three_stages)
     = (None, Some (Error ''exit status 1'')) \<and>
   \<not> executed (snd (GroovyDSLWorkflow (env_failing [0]) RootCtx three_stages)) [1] \<and>
   \<not> executed (snd (GroovyDSLWorkflow (env_failing [0]) RootCtx three_stages)) [2]"
  using C4_sequential_fail_fast
          [where pipeline = three_stages and ?S1.0 = "leaf ''S1''"
             and rest = "[leaf ''S2'', leaf ''S3'']" and env = "env_failing [0]" and ctx = RootCtx
             and err = "Error ''exit status 1''"]
  by (simp add: eval_simps)

text \<open>
  C2, as amended. When the execution of a pipeline fails, \<open>GroovyDSLWorkflow\<close> returns the
  error with the nil results map (a results map is returned on success only), and when the
  parallel group of a stage fails, \<open>Stage.execute\<close> leaves the results map it was given as it
  was: the partial results of the group are not stored under the name of the stage.
\<close>

theorem C2_failure_returns_nil_results:
  "(case GroovyDSLWorkflow env ctx pipeline of
      ((res, Some err), evs) \<Rightarrow> res = None
    | ((res, None), evs) \<Rightarrow> res \<noteq> None) \<and>
   (par \<noteq> [] \<and> err_of (Parallel_execute env ctx path par (fr\<lparr>results := Map.empty\<rparr>)) \<noteq> None \<longrightarrow>
      results (frame_of (Stage_execute env ctx path (Stage name agent steps ff par cl) fr)) = results fr)"
  by (auto simp: GroovyDSLWorkflow_def Stage_execute.simps split: prod.splits option.splits)

theorem C2_witness:
  "fst (GroovyDSLWorkflow (env_failing [1]) RootCtx three_stages)
     = (None, Some (Error ''exit status 1'')) \<and>
   two_branches \<noteq> [] \<and>
   err_of (Parallel_execute (env_failing [0, 1]) RootCtx [0] two_branches
             (empty_frame\<lparr>results := Map.empty\<rparr>)) \<noteq> None \<and>
   results (frame_of (Stage_execute (env_failing [0, 1]) RootCtx [0] parallel_stage empty_frame))
     = results empty_frame"
  using C2_failure_returns_nil_results
          [where env = "env_failing [1]" and ctx = RootCtx and pipeline = three_stages
             and par = two_branches and path = "[0]" and fr = empty_frame
             and name = "''Parallel Stage''" and agent = None and steps = "[echo_step]"
             and ff = "Some True" and cl = "''}''"]
        C2_failure_returns_nil_results
          [where env = "env_failing [0, 1]" and ctx = RootCtx and pipeline = three_stages
             and par = two_branches and path = "[0]" and fr = empty_frame
             and name = "''Parallel Stage''" and agent = None and steps = "[echo_step]"
             and ff = "Some True" and cl = "''}''"]
  by (simp add: eval_simps)

text \<open>
  The claim as stated fails on three sequential stages of which the second fails: the first
  stage has written its output into the results map of the engine, and the caller receives
  the nil map.
\<close>

theorem C2_counterexample:
  "results (frame_of (GroovyDSLWorkflow_loop (env_failing [1]) RootCtx 0 (Stages three_stages)
       \<lparr>variables = Map.empty, results = Map.empty\<rparr>)) ''S1'' = Some (Strings [''done'']) \<and>
   fst (GroovyDSLWorkflow (env_failing [1]) RootCtx three_stages)
     = (None, Some (Error ''exit status 1''))"
  by (simp add: eval_simps)

end
